theory Spec2Isabelle
  imports Complex_Main "HOL-Library.Word" "HOL-Library.Char_ord" "HOL-Library.List_Lexorder"
    "HOL-Library.Multiset"
begin

section \<open>Python values used by the backend\<close>

text \<open>
  Python \<^verbatim>\<open>int\<close> is \<^typ>\<open>int\<close>, \<^verbatim>\<open>bytes\<close> is a list of 8-bit words, \<^verbatim>\<open>str\<close> is
  \<^typ>\<open>string\<close> (each \<^typ>\<open>char\<close> stands for one code point below 256), and a Python
  \<^verbatim>\<open>float\<close> holding a time in seconds is a \<^typ>\<open>real\<close>: the rounding of IEEE arithmetic,
  infinities and NaN are not part of this model.
\<close>

type_synonym byte = "8 word"
type_synonym bytes = "byte list"

datatype py_error = ZeroDivisionError | IndexError

text \<open>
  \<^verbatim>\<open>round(x)\<close> on a float rounds to the nearest integer and sends a tie to the even
  neighbour.
\<close>

definition py_round :: "real \<Rightarrow> int" where
  "py_round x =
     (let f = \<lfloor>x\<rfloor>; d = x - of_int f
      in if d < 1 / 2 then f
         else if 1 / 2 < d then f + 1
         else if even f then f else f + 1)"

text \<open>\<^verbatim>\<open>xs[n:]\<close> for any integer \<open>n\<close>: a negative \<open>n\<close> counts from the end.\<close>

definition py_slice_from :: "'a list \<Rightarrow> int \<Rightarrow> 'a list" where
  "py_slice_from xs n =
     (if 0 \<le> n then drop (nat n) xs else drop (length xs - nat (- n)) xs)"

section \<open>Stream writer and PCM aligner (muesli\_backend.py)\<close>

definition BYTES_PER_SAMPLE :: int where
  "BYTES_PER_SAMPLE = 2"

text \<open>
  \<^verbatim>\<open>StreamWriter\<close>: the field \<open>wav\<close> holds the sample bytes handed to
  \<^verbatim>\<open>wave.Wave_write.writeframes\<close> so far (the data chunk of the container, without its
  header), the field \<open>pcm\<close> the content of the raw file.
\<close>

record StreamWriter =
  path :: string
  wav :: bytes
  pcm :: bytes
  last_sample_index :: int
  bytes_written :: int

text \<open>
  \<^verbatim>\<open>open_stream_writer\<close>: both files are opened for writing (and so are empty), the two
  counters take their dataclass defaults.
\<close>

definition open_stream_writer :: "string \<Rightarrow> StreamWriter" where
  "open_stream_writer p =
     \<lparr>path = p, wav = [], pcm = [], last_sample_index = 0, bytes_written = 0\<rparr>"

text \<open>
  The tail of \<^verbatim>\<open>write_aligned_audio\<close> (the last five statements), reached from each of
  the three alignment branches with the payload that is left.
\<close>

definition append_payload :: "StreamWriter \<Rightarrow> bytes \<Rightarrow> int \<Rightarrow> StreamWriter" where
  "append_payload writer payload bytes_per_frame =
     writer\<lparr>wav := wav writer @ payload,
            pcm := pcm writer @ payload,
            last_sample_index := last_sample_index writer + int (length payload) div bytes_per_frame,
            bytes_written := bytes_written writer + int (length payload)\<rparr>"

text \<open>
  \<^verbatim>\<open>write_aligned_audio(writer, payload, pts_us, sample_rate, channels)\<close>. The writer is
  mutated in place by the source; here the updated writer is returned. A zero
  \<open>bytes_per_frame\<close> makes the floor division raise. The quotient
  \<^verbatim>\<open>pts_us * sample_rate / 1_000_000.0\<close> is taken exactly.
\<close>

definition write_aligned_audio ::
  "StreamWriter \<Rightarrow> bytes \<Rightarrow> int \<Rightarrow> int \<Rightarrow> int \<Rightarrow> py_error + StreamWriter" where
  "write_aligned_audio writer payload pts_us sample_rate channels =
     (if payload = [] then Inr writer
      else
        let bytes_per_frame = BYTES_PER_SAMPLE * channels in
        if bytes_per_frame = 0 then Inl ZeroDivisionError
        else
          let usable = (int (length payload) div bytes_per_frame) * bytes_per_frame in
          if usable \<le> 0 then Inr writer
          else
            let payload = take (nat usable) payload;
                rounded = py_round (of_int (pts_us * sample_rate) / 1000000);
                start_sample = (if rounded < 0 then 0 else rounded)
            in
              if start_sample > last_sample_index writer then
                let gap_frames = start_sample - last_sample_index writer;
                    silence = replicate (nat (gap_frames * bytes_per_frame)) (0 :: byte);
                    writer = writer\<lparr>wav := wav writer @ silence,
                                    pcm := pcm writer @ silence,
                                    last_sample_index := last_sample_index writer + gap_frames,
                                    bytes_written := bytes_written writer + int (length silence)\<rparr>
                in Inr (append_payload writer payload bytes_per_frame)
              else if start_sample < last_sample_index writer then
                let overlap_frames = last_sample_index writer - start_sample;
                    drop_bytes = overlap_frames * bytes_per_frame
                in
                  if drop_bytes \<ge> int (length payload) then Inr writer
                  else Inr (append_payload writer (py_slice_from payload drop_bytes) bytes_per_frame)
              else Inr (append_payload writer payload bytes_per_frame))"

text \<open>
  The dispatcher applies the audio frames of one stream in arrival order, each as
  \<^verbatim>\<open>write_aligned_audio(writer, payload, pts_us, state.sample_rate, state.channels)\<close>;
  an exception ends the run.
\<close>

fun apply_audio_frames ::
  "StreamWriter \<Rightarrow> (bytes \<times> int) list \<Rightarrow> int \<Rightarrow> int \<Rightarrow> py_error + StreamWriter" where
  "apply_audio_frames writer [] sample_rate channels = Inr writer"
| "apply_audio_frames writer ((payload, pts_us) # frames) sample_rate channels =
     (case write_aligned_audio writer payload pts_us sample_rate channels of
        Inl e \<Rightarrow> Inl e
      | Inr writer' \<Rightarrow> apply_audio_frames writer' frames sample_rate channels)"

text \<open>The raw file holds exactly \<open>last_sample_index\<close> frames.\<close>

definition raw_size_ok :: "StreamWriter \<Rightarrow> int \<Rightarrow> bool" where
  "raw_size_ok writer channels \<longleftrightarrow>
     int (length (pcm writer)) = last_sample_index writer * (BYTES_PER_SAMPLE * channels)"

section \<open>Words, segments and turns (asr.py, diarisation.py, merge.py)\<close>

record Word =
  w_text :: string
  w_start :: real
  w_end :: real

record DiarSegment =
  seg_start :: real
  seg_end :: real
  seg_speaker :: string

record LabelledWord =
  lw_text :: string
  lw_start :: real
  lw_end :: real
  lw_speaker :: string

record SpeakerTurn =
  turn_speaker :: string
  turn_start :: real
  turn_end :: real
  turn_text :: string
  turn_words :: "LabelledWord list"

record MergedTranscript =
  mt_turns :: "SpeakerTurn list"
  mt_words :: "LabelledWord list"
  mt_segments :: "DiarSegment list"

definition UNKNOWN :: string where
  "UNKNOWN = ''UNKNOWN''"

subsection \<open>Speaker assignment: \<^verbatim>\<open>assign_speakers_to_words\<close>\<close>

text \<open>
  The four variables the loop over the segments updates. \<open>min_distance\<close> starts as
  \<^verbatim>\<open>float("inf")\<close>, here \<open>None\<close>; \<open>nearest_speaker\<close> starts as Python's \<^verbatim>\<open>None\<close>.
\<close>

record assign_state =
  best_speaker :: string
  best_overlap :: real
  nearest_speaker :: "string option"
  min_distance :: "real option"

definition seg_overlap :: "Word \<Rightarrow> DiarSegment \<Rightarrow> real" where
  "seg_overlap word seg =
     (let overlap_start = max (w_start word) (seg_start seg);
          overlap_end = min (w_end word) (seg_end seg)
      in max 0 (overlap_end - overlap_start))"

definition seg_dist :: "real \<Rightarrow> DiarSegment \<Rightarrow> real" where
  "seg_dist word_mid seg =
     (if word_mid < seg_start seg then seg_start seg - word_mid
      else if word_mid > seg_end seg then word_mid - seg_end seg
      else 0)"

text \<open>The body of \<^verbatim>\<open>for seg in segments\<close>.\<close>

definition assign_step :: "Word \<Rightarrow> assign_state \<Rightarrow> DiarSegment \<Rightarrow> assign_state" where
  "assign_step word st seg =
     (let word_mid = (w_start word + w_end word) / 2;
          overlap = seg_overlap word seg;
          st = (if overlap > best_overlap st
                then st\<lparr>best_overlap := overlap, best_speaker := seg_speaker seg\<rparr>
                else st);
          dist = seg_dist word_mid seg
      in if (case min_distance st of None \<Rightarrow> True | Some m \<Rightarrow> dist < m)
         then st\<lparr>min_distance := Some dist, nearest_speaker := Some (seg_speaker seg)\<rparr>
         else st)"

definition assign_init :: assign_state where
  "assign_init =
     \<lparr>best_speaker = UNKNOWN, best_overlap = 0, nearest_speaker = None, min_distance = None\<rparr>"

text \<open>
  The body of \<^verbatim>\<open>for word in sorted_words\<close>: the label one word gets before interpolation.
  In the test after the loop, \<^verbatim>\<open>nearest_speaker\<close> is used as a truth value, which is false
  for \<^verbatim>\<open>None\<close> and for the empty string.
\<close>

definition assign_word :: "Word \<Rightarrow> DiarSegment list \<Rightarrow> real \<Rightarrow> LabelledWord" where
  "assign_word word segs tolerance =
     (let st = foldl (assign_step word) assign_init segs;
          speaker =
            (if best_overlap st = 0
                \<and> (case nearest_speaker st of None \<Rightarrow> False | Some s \<Rightarrow> s \<noteq> [])
                \<and> (case min_distance st of None \<Rightarrow> False | Some m \<Rightarrow> m \<le> tolerance)
             then the (nearest_speaker st)
             else best_speaker st)
      in \<lparr>lw_text = w_text word, lw_start = w_start word, lw_end = w_end word,
          lw_speaker = speaker\<rparr>)"

text \<open>
  \<^verbatim>\<open>sorted(words, key=lambda w: w.start)\<close> is a stable sort, as \<^const>\<open>sort_key\<close> is; words
  with \<^verbatim>\<open>end <= start\<close> are then dropped and each remaining word is labelled.
\<close>

definition labelled_before_interpolation ::
  "Word list \<Rightarrow> DiarSegment list \<Rightarrow> real \<Rightarrow> LabelledWord list" where
  "labelled_before_interpolation ws segs tolerance =
     (let sorted_words = sort_key w_start ws;
          sorted_words = filter (\<lambda>w. w_end w > w_start w) sorted_words
      in map (\<lambda>word. assign_word word segs tolerance) sorted_words)"

subsection \<open>Interpolation of UNKNOWN speakers: \<^verbatim>\<open>_interpolate_unknown_speakers\<close>\<close>

text \<open>
  The inner \<^verbatim>\<open>for j in range(i + 1, min(i + 10, len(result)))\<close> with its \<^verbatim>\<open>break\<close>: the
  speaker of the first word at one of the indices \<open>js\<close> that is not UNKNOWN.
\<close>

fun next_known_scan :: "LabelledWord list \<Rightarrow> nat list \<Rightarrow> string option" where
  "next_known_scan result [] = None"
| "next_known_scan result (j # js) =
     (if lw_speaker (result ! j) \<noteq> UNKNOWN then Some (lw_speaker (result ! j))
      else next_known_scan result js)"

text \<open>
  The forward loop over the indices of \<open>result\<close>, which it updates in place; \<open>last_known\<close>
  is the loop's variable of that name. The index list is \<open>[0..<length result]\<close>.
\<close>

fun forward_loop :: "nat list \<Rightarrow> LabelledWord list \<Rightarrow> string option \<Rightarrow> LabelledWord list" where
  "forward_loop [] result last_known = result"
| "forward_loop (i # is) result last_known =
     (let word = result ! i in
      if lw_speaker word \<noteq> UNKNOWN then forward_loop is result (Some (lw_speaker word))
      else
        (case last_known of
           None \<Rightarrow> forward_loop is result None
         | Some lk \<Rightarrow>
             let next_known = next_known_scan result [i + 1 ..< min (i + 10) (length result)] in
             if next_known = None \<or> next_known = Some lk
             then forward_loop is (result[i := word\<lparr>lw_speaker := lk\<rparr>]) (Some lk)
             else forward_loop is result (Some lk)))"

definition forward_pass :: "LabelledWord list \<Rightarrow> LabelledWord list" where
  "forward_pass result = forward_loop [0 ..< length result] result None"

text \<open>The backward loop, over \<^verbatim>\<open>range(len(result) - 1, -1, -1)\<close>.\<close>

fun backward_loop :: "nat list \<Rightarrow> LabelledWord list \<Rightarrow> string option \<Rightarrow> LabelledWord list" where
  "backward_loop [] result next_known = result"
| "backward_loop (i # is) result next_known =
     (let word = result ! i in
      if lw_speaker word \<noteq> UNKNOWN then backward_loop is result (Some (lw_speaker word))
      else
        (case next_known of
           None \<Rightarrow> backward_loop is result None
         | Some nk \<Rightarrow> backward_loop is (result[i := word\<lparr>lw_speaker := nk\<rparr>]) (Some nk)))"

definition backward_pass :: "LabelledWord list \<Rightarrow> LabelledWord list" where
  "backward_pass result = backward_loop (rev [0 ..< length result]) result None"

definition interpolate_unknown_speakers :: "LabelledWord list \<Rightarrow> LabelledWord list" where
  "interpolate_unknown_speakers ws =
     (if ws = [] then ws else backward_pass (forward_pass ws))"

definition assign_speakers_to_words ::
  "Word list \<Rightarrow> DiarSegment list \<Rightarrow> real \<Rightarrow> LabelledWord list" where
  "assign_speakers_to_words ws segs tolerance =
     interpolate_unknown_speakers (labelled_before_interpolation ws segs tolerance)"


subsection \<open>Punctuation-aware join: \<^verbatim>\<open>_join_words_smart\<close>\<close>

text \<open>Python's \<^verbatim>\<open>a in b\<close> on two strings: \<open>a\<close> occurs in \<open>b\<close> as a contiguous substring.\<close>

fun str_in :: "string \<Rightarrow> string \<Rightarrow> bool" where
  "str_in a [] = (a = [])"
| "str_in a (c # cs) = (take (length a) (c # cs) = a \<or> str_in a cs)"

text \<open>The two string literals the join tests a token against.\<close>

definition CLOSING :: string where
  "CLOSING = ''.,!?;:)]}'' @ [CHR 0x22, CHR 0x27]"

definition OPENING :: string where
  "OPENING = ''([{'' @ [CHR 0x22, CHR 0x27]"

text \<open>The loop over the words of a turn, with the list \<open>parts\<close> it appends to.\<close>

fun join_parts :: "LabelledWord list \<Rightarrow> string list \<Rightarrow> string list" where
  "join_parts [] parts = parts"
| "join_parts (w # ws) parts =
     (let text = lw_text w in
      if text = [] then join_parts ws parts
      else if parts \<noteq> [] \<and> str_in text CLOSING then join_parts ws (parts @ [text])
      else if str_in text OPENING \<and> parts \<noteq> [] then join_parts ws (parts @ [CHR '' '' # text])
      else if parts \<noteq> [] then join_parts ws (parts @ [CHR '' '' # text])
      else join_parts ws (parts @ [text]))"

text \<open>
  \<^verbatim>\<open>result.replace("  ", " ")\<close>: every occurrence of two spaces, found from the left and
  without overlap, becomes one space.
\<close>

fun replace_double_space :: "string \<Rightarrow> string" where
  "replace_double_space (a # b # cs) =
     (if a = CHR '' '' \<and> b = CHR '' '' then CHR '' '' # replace_double_space cs
      else a # replace_double_space (b # cs))"
| "replace_double_space cs = cs"

text \<open>\<^verbatim>\<open>while "  " in result: result = result.replace("  ", " ")\<close>.\<close>

function collapse_spaces :: "string \<Rightarrow> string" where
  "collapse_spaces result =
     (if str_in [CHR '' '', CHR '' ''] result then collapse_spaces (replace_double_space result)
      else result)"
  by pat_completeness auto
termination
proof (relation "measure length")
  show "wf (measure length)" by simp
next
  fix result :: string
  have le: "length (replace_double_space s) \<le> length s" for s
    by (induction s rule: replace_double_space.induct) auto
  have "str_in [CHR '' '', CHR '' ''] s \<Longrightarrow> length (replace_double_space s) < length s" for s
  proof (induction s rule: replace_double_space.induct)
    case (1 a b cs)
    then show ?case using le[of cs] by (auto simp: less_Suc_eq_le)
  qed auto
  then show "str_in [CHR '' '', CHR '' ''] result \<Longrightarrow>
      (replace_double_space result, result) \<in> measure length"
    by simp
qed

declare collapse_spaces.simps [simp del]

text \<open>
  \<^verbatim>\<open>str.isspace\<close> on the code points below 256, and \<^verbatim>\<open>str.strip()\<close>, which removes the
  leading and the trailing whitespace.
\<close>

definition py_isspace :: "char \<Rightarrow> bool" where
  "py_isspace c =
     (let n = (of_char c :: nat)
      in (9 \<le> n \<and> n \<le> 13) \<or> (28 \<le> n \<and> n \<le> 32) \<or> n = 133 \<or> n = 160)"

definition py_strip :: "string \<Rightarrow> string" where
  "py_strip s = rev (dropWhile py_isspace (rev (dropWhile py_isspace s)))"

definition join_words_smart :: "LabelledWord list \<Rightarrow> string" where
  "join_words_smart ws =
     (if ws = [] then []
      else py_strip (collapse_spaces (concat (join_parts ws []))))"

subsection \<open>Turn grouping: \<^verbatim>\<open>words_to_turns\<close>\<close>

text \<open>
  The \<^verbatim>\<open>SpeakerTurn(...)\<close> built from \<open>current_words\<close>. Reading \<^verbatim>\<open>current_words[0]\<close> or
  \<^verbatim>\<open>current_words[-1]\<close> of an empty list raises \<^verbatim>\<open>IndexError\<close>.
\<close>

definition make_turn :: "string \<Rightarrow> LabelledWord list \<Rightarrow> py_error + SpeakerTurn" where
  "make_turn current_speaker current_words =
     (case current_words of
        [] \<Rightarrow> Inl IndexError
      | w0 # _ \<Rightarrow>
          Inr \<lparr>turn_speaker = current_speaker,
               turn_start = lw_start w0,
               turn_end = lw_end (last current_words),
               turn_text = join_words_smart current_words,
               turn_words = current_words\<rparr>)"

text \<open>
  The loop \<^verbatim>\<open>for word in words[1:]\<close> with its three variables, followed by the statements
  after the loop.
\<close>

fun turns_loop ::
  "LabelledWord list \<Rightarrow> SpeakerTurn list \<Rightarrow> LabelledWord list \<Rightarrow> string \<Rightarrow> real \<Rightarrow> real
     \<Rightarrow> py_error + SpeakerTurn list" where
  "turns_loop [] turns current_words current_speaker gap_threshold max_turn_duration =
     (if current_words \<noteq> [] then
        (case make_turn current_speaker current_words of
           Inl e \<Rightarrow> Inl e
         | Inr t \<Rightarrow> Inr (turns @ [t]))
      else Inr turns)"
| "turns_loop (word # rest) turns current_words current_speaker gap_threshold max_turn_duration =
     (case current_words of
        [] \<Rightarrow> Inl IndexError
      | w0 # _ \<Rightarrow>
          let gap = lw_start word - lw_end (last current_words);
              speaker_change = (lw_speaker word \<noteq> current_speaker);
              turn_duration = lw_end word - lw_start w0
          in
            if speaker_change \<or> gap > gap_threshold \<or> turn_duration > max_turn_duration then
              (case make_turn current_speaker current_words of
                 Inl e \<Rightarrow> Inl e
               | Inr t \<Rightarrow>
                   turns_loop rest (turns @ [t]) [word] (lw_speaker word)
                     gap_threshold max_turn_duration)
            else
              turns_loop rest turns (current_words @ [word]) current_speaker
                gap_threshold max_turn_duration)"

definition words_to_turns ::
  "LabelledWord list \<Rightarrow> real \<Rightarrow> real \<Rightarrow> py_error + SpeakerTurn list" where
  "words_to_turns ws gap_threshold max_turn_duration =
     (case ws of
        [] \<Rightarrow> Inr []
      | w0 # rest \<Rightarrow> turns_loop rest [] [w0] (lw_speaker w0) gap_threshold max_turn_duration)"


section \<open>Transcript emitter (muesli\_backend.py)\<close>

text \<open>
  The JSON lines \<^verbatim>\<open>emit_transcript\<close> writes, in the order it writes them. A \<open>Speakers\<close>
  event carries the sorted known speaker ids; a \<open>Segment\<close> carries speaker, speaker id,
  stream, \<open>t0\<close>, \<open>t1\<close> and text; a \<open>Partial\<close> carries speaker id, stream, \<open>t0\<close> and text.
\<close>

datatype event =
    Speakers "string list"
  | Segment string string "string option" real real string
  | Partial string "string option" real string

type_synonym fingerprint = "string \<times> real \<times> string"

text \<open>
  The emitter's fields. A stream's entry of \<open>last_partial_by_stream\<close> may hold Python's
  \<^verbatim>\<open>None\<close>, so its values are options.
\<close>

record TranscriptEmitter =
  finalize_lag :: real
  last_emitted_t1_by_stream :: "string \<rightharpoonup> real"
  last_partial_by_stream :: "string \<rightharpoonup> fingerprint option"
  seen_speakers :: "string set"

definition new_emitter :: "real \<Rightarrow> TranscriptEmitter" where
  "new_emitter lag =
     \<lparr>finalize_lag = lag, last_emitted_t1_by_stream = Map.empty,
      last_partial_by_stream = Map.empty, seen_speakers = {}\<rparr>"

text \<open>The truth value of \<^verbatim>\<open>stream_name\<close>: false for \<^verbatim>\<open>None\<close> and for the empty string.\<close>

definition name_given :: "string option \<Rightarrow> bool" where
  "name_given stream_name = (case stream_name of None \<Rightarrow> False | Some n \<Rightarrow> n \<noteq> [])"

text \<open>\<^verbatim>\<open>stream_name or "default"\<close>.\<close>

definition stream_key_of :: "string option \<Rightarrow> string" where
  "stream_key_of stream_name = (if name_given stream_name then the stream_name else ''default'')"

text \<open>\<^verbatim>\<open>f"{stream_name}:{turn.speaker}" if stream_name else turn.speaker\<close>.\<close>

definition speaker_id_of :: "string option \<Rightarrow> string \<Rightarrow> string" where
  "speaker_id_of stream_name speaker =
     (if name_given stream_name then the stream_name @ '':'' @ speaker else speaker)"

text \<open>\<^verbatim>\<open>self._last_emitted_t1_by_stream.get(stream_key, 0.0)\<close>.\<close>

definition last_emitted_t1_of :: "TranscriptEmitter \<Rightarrow> string \<Rightarrow> real" where
  "last_emitted_t1_of emitter stream_key =
     (case last_emitted_t1_by_stream emitter stream_key of None \<Rightarrow> 0 | Some t \<Rightarrow> t)"

text \<open>\<^verbatim>\<open>self._last_partial_by_stream.get(stream_key)\<close>.\<close>

definition last_partial_of :: "TranscriptEmitter \<Rightarrow> string \<Rightarrow> fingerprint option" where
  "last_partial_of emitter stream_key =
     (case last_partial_by_stream emitter stream_key of None \<Rightarrow> None | Some p \<Rightarrow> p)"

text \<open>The first loop over the turns: it adds unseen speaker ids and sets \<open>new_speakers\<close>.\<close>

fun note_speakers ::
  "SpeakerTurn list \<Rightarrow> string option \<Rightarrow> string set \<Rightarrow> bool \<Rightarrow> string set \<times> bool" where
  "note_speakers [] stream_name seen new_speakers = (seen, new_speakers)"
| "note_speakers (turn # rest) stream_name seen new_speakers =
     (let speaker_id = speaker_id_of stream_name (turn_speaker turn) in
      if speaker_id \<notin> seen then note_speakers rest stream_name (insert speaker_id seen) True
      else note_speakers rest stream_name seen new_speakers)"

text \<open>\<^verbatim>\<open>cutoff = current_duration if finalize else max(0.0, current_duration - self._finalize_lag)\<close>.\<close>

definition emit_cutoff :: "TranscriptEmitter \<Rightarrow> real \<Rightarrow> bool \<Rightarrow> real" where
  "emit_cutoff emitter current_duration finalize =
     (if finalize then current_duration else max 0 (current_duration - finalize_lag emitter))"

text \<open>
  The second loop over the turns: the segment events it writes and the final value of
  its variable \<open>last_emitted_t1\<close>.
\<close>

fun emit_segments ::
  "SpeakerTurn list \<Rightarrow> string option \<Rightarrow> real \<Rightarrow> real \<Rightarrow> event list \<times> real" where
  "emit_segments [] stream_name cutoff last_emitted_t1 = ([], last_emitted_t1)"
| "emit_segments (turn # rest) stream_name cutoff last_emitted_t1 =
     (if turn_end turn \<le> cutoff \<and> turn_end turn > last_emitted_t1 + 2 / 100 then
        let speaker_id = speaker_id_of stream_name (turn_speaker turn);
            ev = Segment (turn_speaker turn) speaker_id stream_name
                   (turn_start turn) (turn_end turn) (turn_text turn);
            (evs, final_t1) =
              emit_segments rest stream_name cutoff (max last_emitted_t1 (turn_end turn))
        in (ev # evs, final_t1)
      else emit_segments rest stream_name cutoff last_emitted_t1)"

text \<open>
  The block under \<^verbatim>\<open>if not finalize\<close>: the partial event, if any, and the new value of
  \<open>last_partial\<close>. It is reached only with a non-empty list of turns.
\<close>

definition emit_partial ::
  "SpeakerTurn list \<Rightarrow> string option \<Rightarrow> real \<Rightarrow> bool \<Rightarrow> fingerprint option
     \<Rightarrow> event list \<times> fingerprint option" where
  "emit_partial ts stream_name cutoff finalize last_partial =
     (if \<not> finalize then
        let last_turn = last ts in
        if turn_end last_turn > cutoff then
          let partial = (turn_speaker last_turn, turn_start last_turn, turn_text last_turn) in
          if Some partial \<noteq> last_partial then
            ([Partial (speaker_id_of stream_name (turn_speaker last_turn)) stream_name
                (turn_start last_turn) (turn_text last_turn)],
             Some partial)
          else ([], last_partial)
        else ([], last_partial)
      else ([], last_partial))"

text \<open>
  \<^verbatim>\<open>TranscriptEmitter.emit_transcript(merged, current_duration, finalize, stream_name)\<close>:
  the events written and the emitter after the call.
\<close>

definition emit_transcript ::
  "TranscriptEmitter \<Rightarrow> MergedTranscript \<Rightarrow> real \<Rightarrow> bool \<Rightarrow> string option
     \<Rightarrow> event list \<times> TranscriptEmitter" where
  "emit_transcript emitter merged current_duration finalize stream_name =
     (if mt_turns merged = [] then ([], emitter)
      else
        let stream_key = stream_key_of stream_name;
            last_emitted_t1 = last_emitted_t1_of emitter stream_key;
            last_partial = last_partial_of emitter stream_key;
            (seen, new_speakers) =
              note_speakers (mt_turns merged) stream_name (seen_speakers emitter) False;
            speakers_events =
              (if new_speakers then [Speakers (sorted_list_of_set seen)] else []);
            cutoff = emit_cutoff emitter current_duration finalize;
            (segment_events, last_emitted_t1) =
              emit_segments (mt_turns merged) stream_name cutoff last_emitted_t1;
            (partial_events, last_partial) =
              emit_partial (mt_turns merged) stream_name cutoff finalize last_partial
        in (speakers_events @ segment_events @ partial_events,
            emitter\<lparr>seen_speakers := seen,
                    last_emitted_t1_by_stream :=
                      (last_emitted_t1_by_stream emitter)(stream_key \<mapsto> last_emitted_t1),
                    last_partial_by_stream :=
                      (last_partial_by_stream emitter)(stream_key \<mapsto> last_partial)\<rparr>))"

text \<open>
  A history of the emitter: the calls are serialised by the emitter's lock, so they form a
  sequence; each call is \<open>(merged, current_duration, finalize, stream_name)\<close>.
\<close>

type_synonym emit_call = "MergedTranscript \<times> real \<times> bool \<times> string option"

fun emit_all :: "TranscriptEmitter \<Rightarrow> emit_call list \<Rightarrow> event list \<times> TranscriptEmitter" where
  "emit_all emitter [] = ([], emitter)"
| "emit_all emitter ((merged, current_duration, finalize, stream_name) # calls) =
     (let (evs, emitter') = emit_transcript emitter merged current_duration finalize stream_name;
          (evs', emitter'') = emit_all emitter' calls
      in (evs @ evs', emitter''))"

text \<open>The \<open>t1\<close> values of the segment events of one stream key, in the order written.\<close>

fun event_t1s :: "string \<Rightarrow> event \<Rightarrow> real list" where
  "event_t1s stream_key (Segment speaker speaker_id stream_name t0 t1 txt) =
     (if stream_key_of stream_name = stream_key then [t1] else [])"
| "event_t1s stream_key (Speakers known) = []"
| "event_t1s stream_key (Partial speaker_id stream_name t0 txt) = []"

definition segment_t1s :: "string \<Rightarrow> event list \<Rightarrow> real list" where
  "segment_t1s stream_key evs = concat (map (event_t1s stream_key) evs)"


section \<open>Notions used in the statements\<close>

subsection \<open>Interpolation\<close>

text \<open>The speaker of the first word of a list whose speaker is not UNKNOWN, if there is one.\<close>

definition known_speaker_in :: "LabelledWord list \<Rightarrow> string option" where
  "known_speaker_in ws = map_option lw_speaker (find (\<lambda>w. lw_speaker w \<noteq> UNKNOWN) ws)"

text \<open>The nearest known speaker before position \<open>i\<close>.\<close>

definition last_known_before :: "LabelledWord list \<Rightarrow> nat \<Rightarrow> string option" where
  "last_known_before ws i = known_speaker_in (rev (take i ws))"

text \<open>The nearest known speaker among the \<open>k\<close> positions after position \<open>i\<close>.\<close>

definition next_known_within :: "nat \<Rightarrow> LabelledWord list \<Rightarrow> nat \<Rightarrow> string option" where
  "next_known_within k ws i = known_speaker_in (take k (drop (Suc i) ws))"

text \<open>
  The forward pass as a function of the list alone, with the last known speaker so far as
  its argument; the loop is shown to compute it.
\<close>

fun forward_fill :: "string option \<Rightarrow> LabelledWord list \<Rightarrow> LabelledWord list" where
  "forward_fill last_known [] = []"
| "forward_fill last_known (w # rest) =
     (if lw_speaker w \<noteq> UNKNOWN then w # forward_fill (Some (lw_speaker w)) rest
      else
        (case last_known of
           None \<Rightarrow> w # forward_fill None rest
         | Some lk \<Rightarrow>
             (if known_speaker_in (take 9 rest) = None \<or> known_speaker_in (take 9 rest) = Some lk
              then w\<lparr>lw_speaker := lk\<rparr> else w) # forward_fill (Some lk) rest))"

text \<open>
  What interpolation may do to a word: text and times stay, and a speaker that is not
  UNKNOWN stays.
\<close>

definition keeps_known :: "LabelledWord \<Rightarrow> LabelledWord \<Rightarrow> bool" where
  "keeps_known w w' \<longleftrightarrow>
     lw_text w' = lw_text w \<and> lw_start w' = lw_start w \<and> lw_end w' = lw_end w
     \<and> (lw_speaker w \<noteq> UNKNOWN \<longrightarrow> lw_speaker w' = lw_speaker w)"

text \<open>The ASR word a labelled word was made from.\<close>

definition word_of :: "LabelledWord \<Rightarrow> Word" where
  "word_of lw = \<lparr>w_text = lw_text lw, w_start = lw_start lw, w_end = lw_end lw\<rparr>"


subsection \<open>Speaker assignment\<close>

definition word_mid :: "Word \<Rightarrow> real" where
  "word_mid w = (w_start w + w_end w) / 2"





section \<open>Verified properties\<close>

subsection \<open>Stream writer\<close>

lemma append_payload_size:
  assumes "raw_size_ok writer channels" 
    and "(BYTES_PER_SAMPLE * channels) dvd int (length payload)"
  shows "raw_size_ok (append_payload writer payload (BYTES_PER_SAMPLE * channels)) channels"
  using assms by (auto simp: raw_size_ok_def append_payload_def algebra_simps)

lemma write_aligned_audio_size:
  assumes inv: "raw_size_ok writer channels" and ch: "1 \<le> channels"
  shows "\<exists>writer'. write_aligned_audio writer payload pts_us sample_rate channels = Inr writer'
           \<and> raw_size_ok writer' channels"
proof -
  define bpf where "bpf = BYTES_PER_SAMPLE * channels"
  define usable where "usable = (int (length payload) div bpf) * bpf"
  define pl where "pl = take (nat usable) payload"
  define r where "r = py_round (of_int (pts_us * sample_rate) / 1000000)"
  define s where "s = (if r < 0 then 0 else r)"
  define L where "L = last_sample_index writer"
  have bpf_pos: "0 < bpf" using ch by (simp add: bpf_def BYTES_PER_SAMPLE_def)
  have usable_le: "usable \<le> int (length payload)"
    unfolding usable_def using bpf_pos
    by (metis div_mult_mod_eq  add_increasing2 order_refl pos_mod_sign)
  have len_pl: "int (length pl) = usable" if "0 < usable"
    using usable_le that by (simp add: pl_def)
  have dvd_pl: "bpf dvd int (length pl)" if "0 < usable"
    using len_pl that by (simp add: usable_def)
  have tail_ok: "raw_size_ok (append_payload writer pl bpf) channels" if "0 < usable"
    unfolding bpf_def using inv dvd_pl[OF that] by (intro append_payload_size) (simp_all add: bpf_def)
  have gap_ok: "raw_size_ok (append_payload
       (writer\<lparr>wav := wav writer @ replicate (nat ((s - L) * bpf)) 0,
               pcm := pcm writer @ replicate (nat ((s - L) * bpf)) 0,
               last_sample_index := L + (s - L),
               bytes_written := bytes_written writer + int (length (replicate (nat ((s - L) * bpf)) (0::byte)))\<rparr>)
       pl bpf) channels" if "0 < usable" "L < s"
  proof -
    have "0 \<le> (s - L) * bpf" using that bpf_pos by simp
    then have "raw_size_ok
       (writer\<lparr>wav := wav writer @ replicate (nat ((s - L) * bpf)) 0,
               pcm := pcm writer @ replicate (nat ((s - L) * bpf)) 0,
               last_sample_index := L + (s - L),
               bytes_written := bytes_written writer + int (length (replicate (nat ((s - L) * bpf)) (0::byte)))\<rparr>) channels"
      using inv by (simp add: raw_size_ok_def L_def bpf_def algebra_simps)
    then show ?thesis
      unfolding bpf_def using dvd_pl[OF that(1)]
      by (intro append_payload_size) (simp_all add: bpf_def)
  qed
  have overlap_ok: "raw_size_ok (append_payload writer (py_slice_from pl ((L - s) * bpf)) bpf) channels"
    if "0 < usable" "s < L" "(L - s) * bpf < int (length pl)"
  proof -
    have nn: "0 \<le> (L - s) * bpf" using that bpf_pos by simp
    have "int (length (py_slice_from pl ((L - s) * bpf))) = int (length pl) - (L - s) * bpf"
      using nn that(3) by (simp add: py_slice_from_def)
    moreover have "bpf dvd int (length pl) - (L - s) * bpf"
      using dvd_pl[OF that(1)] by simp
    ultimately show ?thesis
      unfolding bpf_def using inv by (intro append_payload_size) (simp_all add: bpf_def)
  qed
  have b0: "BYTES_PER_SAMPLE \<noteq> 0" "channels \<noteq> 0"
    using ch by (simp_all add: BYTES_PER_SAMPLE_def)
  consider (empty) "payload = []" | (short) "payload \<noteq> []" "usable \<le> 0"
    | (gap) "payload \<noteq> []" "0 < usable" "L < s"
    | (drop_all) "payload \<noteq> []" "0 < usable" "s < L" "int (length pl) \<le> (L - s) * bpf"
    | (overlap) "payload \<noteq> []" "0 < usable" "s < L" "(L - s) * bpf < int (length pl)"
    | (exact) "payload \<noteq> []" "0 < usable" "s = L"
    by linarith
  then show ?thesis
  proof cases
    case empty
    then show ?thesis using inv by (simp add: write_aligned_audio_def)
  next
    case short
    then show ?thesis using inv b0
      by (simp add: write_aligned_audio_def Let_def usable_def bpf_def)
  next
    case gap
    then have "write_aligned_audio writer payload pts_us sample_rate channels =
       Inr (append_payload
       (writer\<lparr>wav := wav writer @ replicate (nat ((s - L) * bpf)) 0,
               pcm := pcm writer @ replicate (nat ((s - L) * bpf)) 0,
               last_sample_index := L + (s - L),
               bytes_written := bytes_written writer + int (length (replicate (nat ((s - L) * bpf)) (0::byte)))\<rparr>)
       pl bpf)"
      using b0 unfolding write_aligned_audio_def Let_def usable_def bpf_def pl_def s_def r_def L_def
      by (simp add: not_le)
    with gap_ok[OF gap(2,3)] show ?thesis by blast
  next
    case drop_all
    then have "write_aligned_audio writer payload pts_us sample_rate channels = Inr writer"
      using b0 unfolding write_aligned_audio_def Let_def usable_def bpf_def pl_def s_def r_def L_def
      by (simp add: not_le)
    then show ?thesis using inv by simp
  next
    case overlap
    then have "write_aligned_audio writer payload pts_us sample_rate channels =
       Inr (append_payload writer (py_slice_from pl ((L - s) * bpf)) bpf)"
      using b0 unfolding write_aligned_audio_def Let_def usable_def bpf_def pl_def s_def r_def L_def
      by (simp add: not_le)
    with overlap_ok[OF overlap(2,3,4)] show ?thesis by blast
  next
    case exact
    then have "write_aligned_audio writer payload pts_us sample_rate channels =
       Inr (append_payload writer pl bpf)"
      using b0 unfolding write_aligned_audio_def Let_def usable_def bpf_def pl_def s_def r_def L_def
      by (simp add: not_le)
    with tail_ok[OF exact(2)] show ?thesis by blast
  qed
qed

lemma apply_audio_frames_size:
  assumes "raw_size_ok writer channels" "1 \<le> channels"
  shows "\<exists>writer'. apply_audio_frames writer frames sample_rate channels = Inr writer'
           \<and> raw_size_ok writer' channels"
  using assms
proof (induction frames arbitrary: writer)
  case Nil
  then show ?case by simp
next
  case (Cons frame frames)
  obtain payload pts_us where frame: "frame = (payload, pts_us)" by (cases frame)
  from write_aligned_audio_size[OF Cons.prems, of payload pts_us sample_rate]
  obtain w1 where w1: "write_aligned_audio writer payload pts_us sample_rate channels = Inr w1"
    "raw_size_ok w1 channels" by blast
  from Cons.IH[OF w1(2) Cons.prems(2)] w1(1) frame show ?case by simp
qed

text \<open>
  C3. From a freshly opened stream writer, after any sequence of \<^verbatim>\<open>write_aligned_audio\<close>
  calls with one sample rate and one channel count of at least 1, no call raises and the
  size of the raw PCM file in bytes is \<open>last_sample_index\<close> times the bytes per frame,
  \<open>2 * channels\<close>.
\<close>

theorem raw_file_size_invariant:
  assumes "1 \<le> channels"
  shows "\<exists>writer'. apply_audio_frames (open_stream_writer p) frames sample_rate channels = Inr writer'
           \<and> int (length (pcm writer')) = last_sample_index writer' * (2 * channels)"
proof -
  have "raw_size_ok (open_stream_writer p) channels"
    by (simp add: raw_size_ok_def open_stream_writer_def)
  from apply_audio_frames_size[OF this assms, of frames sample_rate]
  show ?thesis by (simp add: raw_size_ok_def BYTES_PER_SAMPLE_def)
qed

text \<open>
  An instance of C3: a five-byte payload placed two samples in (two frames of silence, the
  odd last byte dropped), then a payload that lies wholly in the past and is dropped.
\<close>

theorem raw_file_size_invariant_witness:
  "(1::int) \<le> 1 \<and>
   apply_audio_frames (open_stream_writer ''system.wav'') [([1, 2, 3, 4, 5], 125), ([7, 8], 0)] 16000 1 =
     Inr \<lparr>path = ''system.wav'', wav = [0, 0, 0, 0, 1, 2, 3, 4], pcm = [0, 0, 0, 0, 1, 2, 3, 4],
          last_sample_index = 4, bytes_written = 8\<rparr> \<and>
   int (length [0, 0, 0, 0, 1, 2, 3, 4 :: byte]) = 4 * (2 * 1)"
  using raw_file_size_invariant[of 1 "''system.wav''" "[([1, 2, 3, 4, 5], 125), ([7, 8], 0)]" 16000]
  by (simp add: write_aligned_audio_def open_stream_writer_def append_payload_def py_round_def
      py_slice_from_def BYTES_PER_SAMPLE_def Let_def eval_nat_numeral)





subsection \<open>Transcript emitter\<close>

lemma segment_t1s_simps:
  "segment_t1s k [] = []"
  "segment_t1s k (ev # evs) = event_t1s k ev @ segment_t1s k evs"
  "segment_t1s k (evs @ evs') = segment_t1s k evs @ segment_t1s k evs'"
  by (simp_all add: segment_t1s_def)

lemma slack_chain_le_last:
  assumes "sorted_wrt (\<lambda>a b. a + 2 / 100 < b) (a # xs)" and "x \<in> set (a # xs)"
  shows "x \<le> last (a # (xs :: real list))"
  using assms
proof (induction xs arbitrary: a x)
  case Nil
  then show ?case by simp
next
  case (Cons y ys)
  have tail: "sorted_wrt (\<lambda>a b. a + 2 / 100 < b) (y # ys)" using Cons.prems(1) by simp
  have ay: "a < y" using Cons.prems(1) by simp
  show ?case
  proof (cases "x = a")
    case True
    have "y \<le> last (y # ys)" using Cons.IH[OF tail, of y] by simp
    with ay True show ?thesis by simp
  next
    case False
    then have "x \<in> set (y # ys)" using Cons.prems(2) by auto
    from Cons.IH[OF tail this] show ?thesis by simp
  qed
qed

lemma slack_chain_append:
  assumes "sorted_wrt (\<lambda>a b. a + 2 / 100 < b) (a # xs)"
    and "sorted_wrt (\<lambda>a b. a + 2 / 100 < b) (last (a # xs) # ys)"
  shows "sorted_wrt (\<lambda>a b. a + 2 / 100 < b) (a # xs @ (ys :: real list))"
proof -
  have "x + 2 / 100 < y" if "x \<in> set (a # xs)" "y \<in> set ys" for x y
  proof -
    have "x \<le> last (a # xs)" using slack_chain_le_last[OF assms(1) that(1)] .
    moreover have "last (a # xs) + 2 / 100 < y" using assms(2) that(2) by simp
    ultimately show ?thesis by simp
  qed
  then have "sorted_wrt (\<lambda>a b. a + 2 / 100 < b) ((a # xs) @ ys)"
    unfolding sorted_wrt_append using assms by auto
  then show ?thesis by simp
qed

lemma emit_segments_other_key:
  "stream_key_of stream_name \<noteq> k \<Longrightarrow>
     segment_t1s k (fst (emit_segments ts stream_name cutoff l)) = []"
  by (induction ts arbitrary: l) (simp_all add: segment_t1s_simps Let_def case_prod_beta)

lemma emit_segments_chain:
  "sorted_wrt (\<lambda>a b. a + 2 / 100 < b)
     (l # segment_t1s (stream_key_of stream_name) (fst (emit_segments ts stream_name cutoff l)))
   \<and> snd (emit_segments ts stream_name cutoff l) =
       last (l # segment_t1s (stream_key_of stream_name) (fst (emit_segments ts stream_name cutoff l)))"
proof (induction ts arbitrary: l)
  case Nil
  show ?case by (simp add: segment_t1s_simps)
next
  case (Cons turn rest)
  show ?case
  proof (cases "turn_end turn \<le> cutoff \<and> turn_end turn > l + 2 / 100")
    case False
    then show ?thesis using Cons.IH[of l] by auto
  next
    case True
    define e where "e = turn_end turn"
    define xs where "xs = segment_t1s (stream_key_of stream_name) (fst (emit_segments rest stream_name cutoff e))"
    have mx: "max l e = e" using True by (simp add: e_def)
    have ih: "sorted_wrt (\<lambda>a b. a + 2 / 100 < b) (e # xs)"
      "snd (emit_segments rest stream_name cutoff e) = last (e # xs)"
      using Cons.IH[of e] by (simp_all add: xs_def)
    have ev: "segment_t1s (stream_key_of stream_name) (fst (emit_segments (turn # rest) stream_name cutoff l)) = e # xs"
      "snd (emit_segments (turn # rest) stream_name cutoff l) = snd (emit_segments rest stream_name cutoff e)"
      using True mx by (simp_all add: Let_def segment_t1s_simps xs_def e_def[symmetric] case_prod_beta)
    have "sorted_wrt (\<lambda>a b. a + 2 / 100 < b) (l # e # xs)"
      using True ih(1) by (fastforce simp: e_def)
    then show ?thesis using ev ih(2) by simp
  qed
qed

lemma emit_partial_no_segments: "segment_t1s k (fst (emit_partial ts sn cutoff fin lp)) = []"
  by (simp add: emit_partial_def Let_def segment_t1s_simps)

lemma emit_transcript_chain:
  "sorted_wrt (\<lambda>a b. a + 2 / 100 < b)
     (last_emitted_t1_of emitter k #
        segment_t1s k (fst (emit_transcript emitter merged current_duration finalize stream_name)))
   \<and> last_emitted_t1_of (snd (emit_transcript emitter merged current_duration finalize stream_name)) k =
       last (last_emitted_t1_of emitter k #
        segment_t1s k (fst (emit_transcript emitter merged current_duration finalize stream_name)))"
proof (cases "mt_turns merged = []")
  case True
  then show ?thesis by (simp add: emit_transcript_def segment_t1s_simps)
next
  case False
  define cutoff where "cutoff = emit_cutoff emitter current_duration finalize"
  define l where "l = last_emitted_t1_of emitter (stream_key_of stream_name)"
  define segs where "segs = emit_segments (mt_turns merged) stream_name cutoff l"
  have evs: "segment_t1s k (fst (emit_transcript emitter merged current_duration finalize stream_name))
      = segment_t1s k (fst segs)"
    using False
    by (simp add: emit_transcript_def Let_def segment_t1s_simps emit_partial_no_segments
        segs_def cutoff_def l_def case_prod_beta)
  have st: "last_emitted_t1_of (snd (emit_transcript emitter merged current_duration finalize stream_name)) k
      = (if k = stream_key_of stream_name then snd segs else last_emitted_t1_of emitter k)"
    using False
    by (simp add: emit_transcript_def Let_def last_emitted_t1_of_def
        segs_def cutoff_def l_def case_prod_beta)
  show ?thesis
  proof (cases "k = stream_key_of stream_name")
    case True
    then show ?thesis using emit_segments_chain[of l stream_name "mt_turns merged" cutoff] evs st
      by (simp add: segs_def l_def)
  next
    case False
    then have "segment_t1s k (fst segs) = []"
      unfolding segs_def by (intro emit_segments_other_key) simp
    then show ?thesis using evs st False by simp
  qed
qed

lemma emit_all_chain:
  "sorted_wrt (\<lambda>a b. a + 2 / 100 < b)
     (last_emitted_t1_of emitter k # segment_t1s k (fst (emit_all emitter calls)))
   \<and> last_emitted_t1_of (snd (emit_all emitter calls)) k =
       last (last_emitted_t1_of emitter k # segment_t1s k (fst (emit_all emitter calls)))"
proof (induction calls arbitrary: emitter)
  case Nil
  show ?case by (simp add: segment_t1s_simps)
next
  case (Cons call calls)
  obtain merged current_duration finalize stream_name
    where call: "call = (merged, current_duration, finalize, stream_name)" by (cases call)
  define step where "step = emit_transcript emitter merged current_duration finalize stream_name"
  define xs where "xs = segment_t1s k (fst step)"
  define ys where "ys = segment_t1s k (fst (emit_all (snd step) calls))"
  define l0 where "l0 = last_emitted_t1_of emitter k"
  have s1: "sorted_wrt (\<lambda>a b. a + 2 / 100 < b) (l0 # xs)"
    "last_emitted_t1_of (snd step) k = last (l0 # xs)"
    using emit_transcript_chain[of emitter k merged current_duration finalize stream_name]
    by (simp_all add: step_def xs_def l0_def)
  have s2: "sorted_wrt (\<lambda>a b. a + 2 / 100 < b) (last (l0 # xs) # ys)"
    "last_emitted_t1_of (snd (emit_all (snd step) calls)) k = last (last (l0 # xs) # ys)"
    using Cons.IH[of "snd step"] s1(2) by (simp_all add: ys_def)
  have evs: "segment_t1s k (fst (emit_all emitter (call # calls))) = xs @ ys"
    "snd (emit_all emitter (call # calls)) = snd (emit_all (snd step) calls)"
    by (simp_all add: call Let_def segment_t1s_simps step_def xs_def ys_def case_prod_beta)
  have "sorted_wrt (\<lambda>a b. a + 2 / 100 < b) (l0 # xs @ ys)"
    using slack_chain_append[OF s1(1) s2(1)] .
  moreover have "last (last (l0 # xs) # ys) = last (l0 # xs @ ys)"
    by (cases ys) simp_all
  ultimately show ?case using evs s2(2) by (simp add: l0_def)
qed


text \<open>
  C1. For every stream key and any sequence of \<^verbatim>\<open>emit_transcript\<close> calls from any
  emitter state, the \<open>t1\<close> values of the segment events written for that key are strictly
  increasing: each exceeds the \<open>last_emitted_t1\<close> recorded before it (the stored value at
  first, the previous segment's \<open>t1\<close> after) by more than 0.02, and the value recorded at
  the end is the last \<open>t1\<close> written.
\<close>

theorem segment_t1_strictly_increasing:
  "sorted_wrt (<) (segment_t1s k (fst (emit_all emitter calls)))
   \<and> sorted_wrt (\<lambda>a b. a + 2 / 100 < b)
         (last_emitted_t1_of emitter k # segment_t1s k (fst (emit_all emitter calls)))
   \<and> last_emitted_t1_of (snd (emit_all emitter calls)) k =
         last (last_emitted_t1_of emitter k # segment_t1s k (fst (emit_all emitter calls)))"
proof -
  have chain: "sorted_wrt (\<lambda>a b. a + 2 / 100 < b)
         (last_emitted_t1_of emitter k # segment_t1s k (fst (emit_all emitter calls)))"
    and fin: "last_emitted_t1_of (snd (emit_all emitter calls)) k =
         last (last_emitted_t1_of emitter k # segment_t1s k (fst (emit_all emitter calls)))"
    using emit_all_chain[of emitter k calls] by blast+
  have "sorted_wrt (\<lambda>a b. a + 2 / 100 < b) (segment_t1s k (fst (emit_all emitter calls)))"
    using chain by simp
  then have "sorted_wrt (<) (segment_t1s k (fst (emit_all emitter calls)))"
    by (rule sorted_wrt_mono_rel[rotated]) simp
  with chain fin show ?thesis by blast
qed

text \<open>
  An instance of C1, scenario E of the specification: turns ending at 3 and 7 with 12
  seconds of audio, then turns ending at 3, 7 and 10.5 with 16 seconds, lag 5.
\<close>

theorem segment_t1_strictly_increasing_witness:
  "segment_t1s ''system''
     (fst (emit_all (new_emitter 5)
        [(\<lparr>mt_turns =
             [\<lparr>turn_speaker = ''S0'', turn_start = 0, turn_end = 3, turn_text = ''a'', turn_words = []\<rparr>,
              \<lparr>turn_speaker = ''S1'', turn_start = 4, turn_end = 7, turn_text = ''b'', turn_words = []\<rparr>],
            mt_words = [], mt_segments = []\<rparr>, 12, False, Some ''system''),
         (\<lparr>mt_turns =
             [\<lparr>turn_speaker = ''S0'', turn_start = 0, turn_end = 3, turn_text = ''a'', turn_words = []\<rparr>,
              \<lparr>turn_speaker = ''S1'', turn_start = 4, turn_end = 7, turn_text = ''b'', turn_words = []\<rparr>,
              \<lparr>turn_speaker = ''S0'', turn_start = 8, turn_end = 21 / 2, turn_text = ''c'', turn_words = []\<rparr>],
            mt_words = [], mt_segments = []\<rparr>, 16, False, Some ''system'')]))
   = [3, 7, 21 / 2]
   \<and> sorted_wrt (<) [3, 7, 21 / 2 :: real]"
  using segment_t1_strictly_increasing[of "''system''" "new_emitter 5"
        "[(\<lparr>mt_turns =
             [\<lparr>turn_speaker = ''S0'', turn_start = 0, turn_end = 3, turn_text = ''a'', turn_words = []\<rparr>,
              \<lparr>turn_speaker = ''S1'', turn_start = 4, turn_end = 7, turn_text = ''b'', turn_words = []\<rparr>],
            mt_words = [], mt_segments = []\<rparr>, 12, False, Some ''system''),
         (\<lparr>mt_turns =
             [\<lparr>turn_speaker = ''S0'', turn_start = 0, turn_end = 3, turn_text = ''a'', turn_words = []\<rparr>,
              \<lparr>turn_speaker = ''S1'', turn_start = 4, turn_end = 7, turn_text = ''b'', turn_words = []\<rparr>,
              \<lparr>turn_speaker = ''S0'', turn_start = 8, turn_end = 21 / 2, turn_text = ''c'', turn_words = []\<rparr>],
            mt_words = [], mt_segments = []\<rparr>, 16, False, Some ''system'')]"]
  by (simp add: emit_transcript_def new_emitter_def emit_cutoff_def emit_partial_def
      last_emitted_t1_of_def last_partial_of_def stream_key_of_def name_given_def
      speaker_id_of_def segment_t1s_def Let_def case_prod_beta)







text \<open>
  C8. A call whose merged transcript has no turns writes no event and returns the emitter
  unchanged, whatever the other arguments are.
\<close>

theorem empty_turns_emit_nothing:
  assumes "mt_turns merged = []"
  shows "emit_transcript emitter merged current_duration finalize stream_name = ([], emitter)"
  using assms by (simp add: emit_transcript_def)

text \<open>
  An instance of C8: a final call for the stream \<open>mic\<close>.
\<close>

theorem empty_turns_emit_nothing_witness:
  "emit_transcript (new_emitter 5) \<lparr>mt_turns = [], mt_words = [], mt_segments = []\<rparr> 12 True (Some ''mic'')
     = ([], new_emitter 5)"
  using empty_turns_emit_nothing[of "\<lparr>mt_turns = [], mt_words = [], mt_segments = []\<rparr>"
      "new_emitter 5" 12 True "Some ''mic''"]
  by simp

subsection \<open>Turn grouping and the punctuation-aware join\<close>

lemma make_turn_words:
  "cw \<noteq> [] \<Longrightarrow> \<exists>t. make_turn cs cw = Inr t \<and> turn_words t = cw"
  by (cases cw) (simp_all add: make_turn_def)

lemma turns_loop_partition:
  assumes "cw \<noteq> []" and "\<forall>t \<in> set acc. turn_words t \<noteq> []"
  shows "\<exists>ts. turns_loop rest acc cw cs g m = Inr ts
           \<and> (\<forall>t \<in> set ts. turn_words t \<noteq> [])
           \<and> concat (map turn_words ts) = concat (map turn_words acc) @ cw @ rest"
  using assms
proof (induction rest arbitrary: acc cw cs)
  case Nil
  from make_turn_words[OF Nil.prems(1), of cs] obtain t
    where t: "make_turn cs cw = Inr t" "turn_words t = cw" by blast
  then show ?case using Nil.prems by simp
next
  case (Cons word rest)
  obtain w0 cw' where cw: "cw = w0 # cw'" using Cons.prems(1) by (cases cw) auto
  from make_turn_words[OF Cons.prems(1), of cs] obtain t
    where t: "make_turn cs cw = Inr t" "turn_words t = cw" by blast
  show ?case
  proof (cases "lw_speaker word \<noteq> cs \<or> lw_start word - lw_end (last cw) > g
                \<or> lw_end word - lw_start w0 > m")
    case True
    have "\<forall>t' \<in> set (acc @ [t]). turn_words t' \<noteq> []"
      using Cons.prems t(2) by auto
    from Cons.IH[of "[word]" "acc @ [t]" "lw_speaker word", OF _ this]
    obtain ts where ts: "turns_loop rest (acc @ [t]) [word] (lw_speaker word) g m = Inr ts"
      "\<forall>t \<in> set ts. turn_words t \<noteq> []"
      "concat (map turn_words ts) = concat (map turn_words (acc @ [t])) @ [word] @ rest"
      by auto
    have "turns_loop (word # rest) acc cw cs g m = Inr ts"
      using True t(1) ts(1) unfolding cw by (simp add: Let_def)
    then show ?thesis using ts(2,3) t(2) by simp
  next
    case False
    from Cons.IH[of "cw @ [word]" acc cs, OF _ Cons.prems(2)]
    obtain ts where ts: "turns_loop rest acc (cw @ [word]) cs g m = Inr ts"
      "\<forall>t \<in> set ts. turn_words t \<noteq> []"
      "concat (map turn_words ts) = concat (map turn_words acc) @ (cw @ [word]) @ rest"
      by auto
    have "turns_loop (word # rest) acc cw cs g m = Inr ts"
      using False ts(1) unfolding cw by (simp add: Let_def)
    then show ?thesis using ts(2,3) by simp
  qed
qed

text \<open>
  C9. \<^verbatim>\<open>words_to_turns\<close> returns without an exception for every word list, every turn it
  returns has a non-empty word list, and the word lists of the turns, concatenated in
  order, are the input list.
\<close>

theorem words_to_turns_partition:
  "\<exists>ts. words_to_turns ws gap_threshold max_turn_duration = Inr ts
        \<and> (\<forall>t \<in> set ts. turn_words t \<noteq> [])
        \<and> concat (map turn_words ts) = ws"
proof (cases ws)
  case Nil
  then show ?thesis by (simp add: words_to_turns_def)
next
  case (Cons w0 rest)
  from turns_loop_partition[of "[w0]" "[]" rest "lw_speaker w0" gap_threshold max_turn_duration]
  show ?thesis using Cons by (simp add: words_to_turns_def)
qed

lemma take_length_eq_iff: "take (length a) b = a \<longleftrightarrow> (\<exists>q. b = a @ q)"
proof
  assume "take (length a) b = a"
  then have "b = a @ drop (length a) b" by (metis append_take_drop_id)
  then show "\<exists>q. b = a @ q" ..
next
  assume "\<exists>q. b = a @ q"
  then show "take (length a) b = a" by auto
qed

lemma str_in_iff: "str_in a b \<longleftrightarrow> (\<exists>p q. b = p @ a @ q)"
proof (induction b)
  case Nil
  show ?case by auto
next
  case (Cons c cs)
  have "(\<exists>p q. c # cs = p @ a @ q) \<longleftrightarrow> (\<exists>q. c # cs = a @ q) \<or> (\<exists>p q. cs = p @ a @ q)"
  proof
    assume "\<exists>p q. c # cs = p @ a @ q"
    then obtain p q where pq: "c # cs = p @ a @ q" by blast
    show "(\<exists>q. c # cs = a @ q) \<or> (\<exists>p q. cs = p @ a @ q)"
    proof (cases p)
      case Nil
      then show ?thesis using pq by auto
    next
      case (Cons x p')
      then have "cs = p' @ a @ q" using pq by simp
      then show ?thesis by blast
    qed
  next
    assume "(\<exists>q. c # cs = a @ q) \<or> (\<exists>p q. cs = p @ a @ q)"
    then show "\<exists>p q. c # cs = p @ a @ q"
    proof
      assume "\<exists>q. c # cs = a @ q"
      then obtain q where "c # cs = [] @ a @ q" by auto
      then show ?thesis by blast
    next
      assume "\<exists>p q. cs = p @ a @ q"
      then obtain p q where "c # cs = (c # p) @ a @ q" by auto
      then show ?thesis by blast
    qed
  qed
  then show ?case using Cons.IH by (simp add: take_length_eq_iff)
qed

lemma str_in_dropWhile: "str_in a (dropWhile P s) \<Longrightarrow> str_in a s"
proof -
  assume "str_in a (dropWhile P s)"
  then obtain p q where "dropWhile P s = p @ a @ q" unfolding str_in_iff by blast
  then have "s = (takeWhile P s @ p) @ a @ q"
    by (metis append_assoc takeWhile_dropWhile_id)
  then show ?thesis unfolding str_in_iff by blast
qed

lemma str_in_rev: "str_in a (rev s) \<Longrightarrow> str_in (rev a) s"
proof -
  assume "str_in a (rev s)"
  then obtain p q where "rev s = p @ a @ q" unfolding str_in_iff by blast
  then have "s = rev q @ rev a @ rev p"
    by (metis append_assoc rev_append rev_rev_ident)
  then show ?thesis unfolding str_in_iff by blast
qed

lemma str_in_py_strip:
  assumes "str_in [CHR '' '', CHR '' ''] (py_strip s)"
  shows "str_in [CHR '' '', CHR '' ''] s"
proof -
  from assms have "str_in (rev [CHR '' '', CHR '' '']) (dropWhile py_isspace (rev (dropWhile py_isspace s)))"
    unfolding py_strip_def by (rule str_in_rev)
  then have "str_in [CHR '' '', CHR '' ''] (rev (dropWhile py_isspace s))"
    by (auto dest: str_in_dropWhile)
  then have "str_in (rev [CHR '' '', CHR '' '']) (dropWhile py_isspace s)"
    by (rule str_in_rev)
  then show ?thesis by (auto dest: str_in_dropWhile)
qed

lemma collapse_spaces_no_double:
  "\<not> str_in [CHR '' '', CHR '' ''] (collapse_spaces s)"
proof (induction s rule: collapse_spaces.induct)
  case (1 result)
  show ?case
  proof (cases "str_in [CHR '' '', CHR '' ''] result")
    case True
    then have "collapse_spaces result = collapse_spaces (replace_double_space result)"
      by (subst collapse_spaces.simps) simp
    then show ?thesis using 1[OF True] by simp
  next
    case False
    then have "collapse_spaces result = result"
      by (subst collapse_spaces.simps) simp
    then show ?thesis using False by simp
  qed
qed

lemma collapse_spaces_id:
  "\<not> str_in [CHR '' '', CHR '' ''] s \<Longrightarrow> collapse_spaces s = s"
  by (subst collapse_spaces.simps) simp

lemma join_single: "join_words_smart [w] = py_strip (collapse_spaces (lw_text w))"
  by (simp add: join_words_smart_def Let_def)

text \<open>
  C7 (as amended). For a turn of a single word the join returns that word's text with its
  runs of spaces collapsed by the clean-up loop and then trimmed; this is the trimmed text
  when the text has no two consecutive spaces. For every turn, the joined string has no
  two consecutive spaces.
\<close>

theorem join_words_smart_single_and_spaces:
  "join_words_smart [w] = py_strip (collapse_spaces (lw_text w))
   \<and> (\<not> str_in ''  '' (lw_text w) \<longrightarrow> join_words_smart [w] = py_strip (lw_text w))
   \<and> \<not> str_in ''  '' (join_words_smart ws)"
proof -
  have "\<not> str_in ''  '' (join_words_smart ws)"
  proof (cases "ws = []")
    case True
    then show ?thesis by (simp add: join_words_smart_def)
  next
    case False
    then show ?thesis
      using collapse_spaces_no_double[of "concat (join_parts ws [])"]
      by (auto simp: join_words_smart_def dest: str_in_py_strip)
  qed
  then show ?thesis by (simp add: join_single collapse_spaces_id)
qed

text \<open>
  C7 as stated fails for a single word whose text has two consecutive spaces inside: the
  clean-up loop collapses them, so the result is not the trimmed text.
\<close>

theorem join_single_word_counterexample:
  "join_words_smart [\<lparr>lw_text = ''a  b'', lw_start = 0, lw_end = 1, lw_speaker = ''S0''\<rparr>] = ''a b''
   \<and> py_strip (lw_text \<lparr>lw_text = ''a  b'', lw_start = 0, lw_end = 1, lw_speaker = ''S0''\<rparr>) = ''a  b''"
  by (simp add: join_words_smart_def collapse_spaces.simps py_strip_def py_isspace_def)


text \<open>
  An instance of the amended C7: a single word with a leading space, and a turn with
  punctuation tokens.
\<close>

theorem join_words_smart_single_and_spaces_witness:
  "\<not> str_in ''  '' (lw_text \<lparr>lw_text = '' hi'', lw_start = 0, lw_end = 1, lw_speaker = ''S0''\<rparr>)
   \<and> join_words_smart [\<lparr>lw_text = '' hi'', lw_start = 0, lw_end = 1, lw_speaker = ''S0''\<rparr>] = ''hi''
   \<and> join_words_smart
        [\<lparr>lw_text = ''Hello'', lw_start = 0, lw_end = 1, lw_speaker = ''S0''\<rparr>,
         \<lparr>lw_text = '','', lw_start = 1, lw_end = 2, lw_speaker = ''S0''\<rparr>,
         \<lparr>lw_text = '' world'', lw_start = 2, lw_end = 3, lw_speaker = ''S0''\<rparr>,
         \<lparr>lw_text = ''!'', lw_start = 3, lw_end = 4, lw_speaker = ''S0''\<rparr>] = ''Hello, world!''"
  using join_words_smart_single_and_spaces[of
      "\<lparr>lw_text = '' hi'', lw_start = 0, lw_end = 1, lw_speaker = ''S0''\<rparr>"
      "[\<lparr>lw_text = ''Hello'', lw_start = 0, lw_end = 1, lw_speaker = ''S0''\<rparr>,
         \<lparr>lw_text = '','', lw_start = 1, lw_end = 2, lw_speaker = ''S0''\<rparr>,
         \<lparr>lw_text = '' world'', lw_start = 2, lw_end = 3, lw_speaker = ''S0''\<rparr>,
         \<lparr>lw_text = ''!'', lw_start = 3, lw_end = 4, lw_speaker = ''S0''\<rparr>]"]
  by (simp add: join_words_smart_def collapse_spaces.simps py_strip_def py_isspace_def
      CLOSING_def OPENING_def)

text \<open>
  An instance of C9: a speaker change after the second word.
\<close>

theorem words_to_turns_partition_witness:
  "words_to_turns
     [\<lparr>lw_text = ''Hi'', lw_start = 0, lw_end = 1 / 2, lw_speaker = ''S0''\<rparr>,
      \<lparr>lw_text = ''there'', lw_start = 1 / 2, lw_end = 1, lw_speaker = ''S0''\<rparr>,
      \<lparr>lw_text = ''Yes'', lw_start = 1, lw_end = 2, lw_speaker = ''S1''\<rparr>] (8 / 10) 60 =
   Inr [\<lparr>turn_speaker = ''S0'', turn_start = 0, turn_end = 1, turn_text = ''Hi there'',
         turn_words =
           [\<lparr>lw_text = ''Hi'', lw_start = 0, lw_end = 1 / 2, lw_speaker = ''S0''\<rparr>,
            \<lparr>lw_text = ''there'', lw_start = 1 / 2, lw_end = 1, lw_speaker = ''S0''\<rparr>]\<rparr>,
        \<lparr>turn_speaker = ''S1'', turn_start = 1, turn_end = 2, turn_text = ''Yes'',
         turn_words = [\<lparr>lw_text = ''Yes'', lw_start = 1, lw_end = 2, lw_speaker = ''S1''\<rparr>]\<rparr>]"
  using words_to_turns_partition[of
     "[\<lparr>lw_text = ''Hi'', lw_start = 0, lw_end = 1 / 2, lw_speaker = ''S0''\<rparr>,
      \<lparr>lw_text = ''there'', lw_start = 1 / 2, lw_end = 1, lw_speaker = ''S0''\<rparr>,
      \<lparr>lw_text = ''Yes'', lw_start = 1, lw_end = 2, lw_speaker = ''S1''\<rparr>]" "8 / 10" 60]
  by (simp add: words_to_turns_def make_turn_def join_words_smart_def collapse_spaces.simps
      py_strip_def py_isspace_def CLOSING_def OPENING_def)

subsection \<open>Interpolation of UNKNOWN speakers\<close>

lemma next_known_scan_upt:
  "b \<le> length result \<Longrightarrow>
   next_known_scan result [a ..< b] = known_speaker_in (take (b - a) (drop a result))"
proof (induction "b - a" arbitrary: a)
  case 0
  then show ?case by (simp add: known_speaker_in_def)
next
  case (Suc d)
  then have ab: "a < b" and d: "d = b - Suc a" by simp_all
  have upt: "[a ..< b] = a # [Suc a ..< b]" using ab by (simp add: upt_conv_Cons)
  have dr: "drop a result = result ! a # drop (Suc a) result"
    using ab Suc.prems by (simp add: Cons_nth_drop_Suc)
  have tk: "take (b - a) (drop a result) = result ! a # take (b - Suc a) (drop (Suc a) result)"
    using ab dr by (simp add: Suc_diff_Suc take_Suc_Cons[symmetric] del: take_Suc_Cons)
  show ?case
    using Suc.hyps(1)[OF d Suc.prems] by (simp add: upt tk known_speaker_in_def)
qed

lemma next_known_scan_window:
  assumes "i < length result"
  shows "next_known_scan result [i + 1 ..< min (i + 10) (length result)]
           = known_speaker_in (take 9 (drop (Suc i) result))"
proof -
  have "take (min (i + 10) (length result) - (i + 1)) (drop (i + 1) result)
      = take 9 (drop (Suc i) result)"
    by (cases "i + 10 \<le> length result") (simp_all add: min_def)
  then show ?thesis
    using next_known_scan_upt[of "min (i + 10) (length result)" result "i + 1"] by simp
qed

lemma forward_loop_fill:
  "i \<le> length result \<Longrightarrow>
   forward_loop [i ..< length result] result lk = take i result @ forward_fill lk (drop i result)"
proof (induction "length result - i" arbitrary: i result lk)
  case 0
  then show ?case by simp
next
  case (Suc d)
  then have i: "i < length result" and d: "d = length result - Suc i" by simp_all
  have upt: "[i ..< length result] = i # [Suc i ..< length result]"
    using i by (simp add: upt_conv_Cons)
  have dr: "drop i result = result ! i # drop (Suc i) result"
    using i by (simp add: Cons_nth_drop_Suc)
  have tk: "take (Suc i) result = take i result @ [result ! i]"
    using i by (simp add: take_Suc_conv_app_nth)
  have keep: "forward_loop [Suc i ..< length result] result lk' =
      take i result @ result ! i # forward_fill lk' (drop (Suc i) result)" for lk'
    using Suc.hyps(1)[of result "Suc i" lk'] d i by (simp add: tk)
  have upd: "forward_loop [Suc i ..< length result] (result[i := w']) lk' =
      take i result @ w' # forward_fill lk' (drop (Suc i) result)" for lk' w'
  proof -
    have "forward_loop [Suc i ..< length (result[i := w'])] (result[i := w']) lk' =
      take (Suc i) (result[i := w']) @ forward_fill lk' (drop (Suc i) (result[i := w']))"
      using d i by (intro Suc.hyps(1)) simp_all
    moreover have "take (Suc i) (result[i := w']) = take i result @ [w']"
      using i by (simp add: take_Suc_conv_app_nth)
    ultimately show ?thesis by simp
  qed
  show ?case
  proof (cases "lw_speaker (result ! i) \<noteq> UNKNOWN")
    case True
    then show ?thesis by (simp add: upt dr keep Let_def)
  next
    case unk: False
    show ?thesis
    proof (cases lk)
      case None
      then show ?thesis using unk by (simp add: upt dr keep Let_def)
    next
      case (Some s)
      then show ?thesis using unk next_known_scan_window[OF i]
        by (simp add: upt dr keep upd Let_def)
    qed
  qed
qed

lemma forward_pass_fill: "forward_pass ws = forward_fill None ws"
  using forward_loop_fill[of 0 ws None] by (simp add: forward_pass_def)

lemma known_speaker_in_snoc:
  "known_speaker_in (ws @ [w]) =
     (case known_speaker_in ws of
        Some s \<Rightarrow> Some s
      | None \<Rightarrow> if lw_speaker w \<noteq> UNKNOWN then Some (lw_speaker w) else None)"
  by (induction ws) (simp_all add: known_speaker_in_def)

lemma known_speaker_in_Nil: "known_speaker_in [] = None"
  by (simp add: known_speaker_in_def)

lemma length_forward_fill: "length (forward_fill lk ws) = length ws"
  by (induction ws arbitrary: lk) (simp_all split: option.splits)

lemma forward_fill_nth:
  assumes "i < length ws" and "lw_speaker (ws ! i) = UNKNOWN"
    and "(case last_known_before ws i of Some s \<Rightarrow> Some s | None \<Rightarrow> lk0) = Some lk"
  shows "forward_fill lk0 ws ! i =
     (if next_known_within 9 ws i = None \<or> next_known_within 9 ws i = Some lk
      then (ws ! i)\<lparr>lw_speaker := lk\<rparr> else ws ! i)"
  using assms
proof (induction ws arbitrary: i lk0)
  case Nil
  then show ?case by simp
next
  case (Cons w rest)
  show ?case
  proof (cases i)
    case 0
    then show ?thesis using Cons.prems
      by (simp add: last_known_before_def next_known_within_def known_speaker_in_Nil)
  next
    case (Suc j)
    define lk1 where "lk1 = (if lw_speaker w \<noteq> UNKNOWN then Some (lw_speaker w) else lk0)"
    have step: "forward_fill lk0 (w # rest) ! i = forward_fill lk1 rest ! j"
      by (cases lk0) (simp_all add: Suc lk1_def)
    have lkb: "last_known_before (w # rest) i =
        (case last_known_before rest j of Some s \<Rightarrow> Some s
         | None \<Rightarrow> if lw_speaker w \<noteq> UNKNOWN then Some (lw_speaker w) else None)"
      by (simp add: Suc last_known_before_def known_speaker_in_snoc)
    have pre: "(case last_known_before rest j of Some s \<Rightarrow> Some s | None \<Rightarrow> lk1) = Some lk"
      using Cons.prems(3) unfolding lkb lk1_def by (auto split: option.splits if_splits)
    have "forward_fill lk1 rest ! j =
       (if next_known_within 9 rest j = None \<or> next_known_within 9 rest j = Some lk
        then (rest ! j)\<lparr>lw_speaker := lk\<rparr> else rest ! j)"
      using Cons.prems(1,2) pre by (intro Cons.IH) (simp_all add: Suc)
    then show ?thesis unfolding step by (simp add: Suc next_known_within_def)
  qed
qed

text \<open>
  C4 (as amended). In the forward pass, a word labelled UNKNOWN that has a known speaker
  before it takes that last known speaker exactly when the nine positions after it
  (indices \<open>i + 1\<close> to \<open>i + 9\<close>, as far as the list goes) hold no known speaker or the
  first known speaker among them is the last known one; otherwise the word is left as it
  is. Text and times are never changed.
\<close>

theorem forward_pass_adopts_last_known:
  assumes "i < length ws" and "lw_speaker (ws ! i) = UNKNOWN"
    and "last_known_before ws i = Some lk"
  shows "forward_pass ws ! i =
     (if next_known_within 9 ws i = None \<or> next_known_within 9 ws i = Some lk
      then (ws ! i)\<lparr>lw_speaker := lk\<rparr> else ws ! i)"
  using forward_fill_nth[OF assms(1,2), of None lk] assms(3)
  by (simp add: forward_pass_fill)


text \<open>
  C4 as stated, with a window of ten positions, fails: after a word of speaker A come ten
  UNKNOWN words and then a word of speaker B. For the first UNKNOWN word the next known
  speaker within ten positions is B, which differs from A, yet the word takes A, because
  the loop \<^verbatim>\<open>range(i + 1, min(i + 10, len(result)))\<close> stops before index \<open>i + 10\<close>.
\<close>

theorem forward_pass_window_counterexample:
  "lw_speaker
     (forward_pass
        (\<lparr>lw_text = ''a'', lw_start = 0, lw_end = 1, lw_speaker = ''A''\<rparr>
         # replicate 10 \<lparr>lw_text = ''u'', lw_start = 1, lw_end = 2, lw_speaker = ''UNKNOWN''\<rparr>
         @ [\<lparr>lw_text = ''b'', lw_start = 2, lw_end = 3, lw_speaker = ''B''\<rparr>]) ! 1) = ''A''
   \<and> last_known_before
        (\<lparr>lw_text = ''a'', lw_start = 0, lw_end = 1, lw_speaker = ''A''\<rparr>
         # replicate 10 \<lparr>lw_text = ''u'', lw_start = 1, lw_end = 2, lw_speaker = ''UNKNOWN''\<rparr>
         @ [\<lparr>lw_text = ''b'', lw_start = 2, lw_end = 3, lw_speaker = ''B''\<rparr>]) 1 = Some ''A''
   \<and> next_known_within 10
        (\<lparr>lw_text = ''a'', lw_start = 0, lw_end = 1, lw_speaker = ''A''\<rparr>
         # replicate 10 \<lparr>lw_text = ''u'', lw_start = 1, lw_end = 2, lw_speaker = ''UNKNOWN''\<rparr>
         @ [\<lparr>lw_text = ''b'', lw_start = 2, lw_end = 3, lw_speaker = ''B''\<rparr>]) 1 = Some ''B''"
  by (simp add: forward_pass_def last_known_before_def next_known_within_def known_speaker_in_def
      UNKNOWN_def eval_nat_numeral upt_conv_Cons Let_def)

text \<open>
  An instance of the amended C4, scenario F of the specification: the middle word lies
  between two words of the same speaker.
\<close>

theorem forward_pass_adopts_last_known_witness:
  "lw_speaker
     ([\<lparr>lw_text = ''a'', lw_start = 0, lw_end = 1 / 2, lw_speaker = ''SPEAKER_01''\<rparr>,
       \<lparr>lw_text = ''b'', lw_start = 6 / 10, lw_end = 1, lw_speaker = ''UNKNOWN''\<rparr>,
       \<lparr>lw_text = ''c'', lw_start = 11 / 10, lw_end = 3 / 2, lw_speaker = ''SPEAKER_01''\<rparr>] ! 1) = UNKNOWN
   \<and> last_known_before
       [\<lparr>lw_text = ''a'', lw_start = 0, lw_end = 1 / 2, lw_speaker = ''SPEAKER_01''\<rparr>,
        \<lparr>lw_text = ''b'', lw_start = 6 / 10, lw_end = 1, lw_speaker = ''UNKNOWN''\<rparr>,
        \<lparr>lw_text = ''c'', lw_start = 11 / 10, lw_end = 3 / 2, lw_speaker = ''SPEAKER_01''\<rparr>] 1
       = Some ''SPEAKER_01''
   \<and> forward_pass
       [\<lparr>lw_text = ''a'', lw_start = 0, lw_end = 1 / 2, lw_speaker = ''SPEAKER_01''\<rparr>,
        \<lparr>lw_text = ''b'', lw_start = 6 / 10, lw_end = 1, lw_speaker = ''UNKNOWN''\<rparr>,
        \<lparr>lw_text = ''c'', lw_start = 11 / 10, lw_end = 3 / 2, lw_speaker = ''SPEAKER_01''\<rparr>] ! 1
       = \<lparr>lw_text = ''b'', lw_start = 6 / 10, lw_end = 1, lw_speaker = ''SPEAKER_01''\<rparr>"
  using forward_pass_adopts_last_known[of 1
       "[\<lparr>lw_text = ''a'', lw_start = 0, lw_end = 1 / 2, lw_speaker = ''SPEAKER_01''\<rparr>,
        \<lparr>lw_text = ''b'', lw_start = 6 / 10, lw_end = 1, lw_speaker = ''UNKNOWN''\<rparr>,
        \<lparr>lw_text = ''c'', lw_start = 11 / 10, lw_end = 3 / 2, lw_speaker = ''SPEAKER_01''\<rparr>]"
       "''SPEAKER_01''"]
  by (simp add: last_known_before_def next_known_within_def known_speaker_in_def UNKNOWN_def)

lemma keeps_known_refl: "keeps_known w w"
  by (simp add: keeps_known_def)

lemma keeps_known_trans: "keeps_known a b \<Longrightarrow> keeps_known b c \<Longrightarrow> keeps_known a c"
  by (auto simp: keeps_known_def)

lemma keeps_known_all_refl: "list_all2 keeps_known xs xs"
  by (simp add: list_all2_conv_all_nth keeps_known_refl)

lemma keeps_known_all_trans:
  "list_all2 keeps_known xs ys \<Longrightarrow> list_all2 keeps_known ys zs \<Longrightarrow> list_all2 keeps_known xs zs"
  by (rule list_all2_trans[where ?P1.0 = keeps_known and ?P2.0 = keeps_known, rotated 1])
    (auto intro: keeps_known_trans)

lemma keeps_known_update:
  assumes "lw_speaker (xs ! i) = UNKNOWN"
  shows "list_all2 keeps_known xs (xs[i := (xs ! i)\<lparr>lw_speaker := s\<rparr>])"
proof (cases "i < length xs")
  case True
  then show ?thesis
    using assms by (auto simp: list_all2_conv_all_nth nth_list_update keeps_known_def)
next
  case False
  then have "xs[i := (xs ! i)\<lparr>lw_speaker := s\<rparr>] = xs"
    by (intro list_update_beyond) simp
  then show ?thesis by (simp only: keeps_known_all_refl)
qed

lemma forward_loop_keeps: "list_all2 keeps_known result (forward_loop is result lk)"
proof (induction "is" arbitrary: result lk)
  case Nil
  show ?case by (simp add: keeps_known_all_refl)
next
  case (Cons i "is")
  show ?case
  proof (cases "lw_speaker (result ! i) \<noteq> UNKNOWN")
    case True
    then show ?thesis using Cons.IH by (simp add: Let_def)
  next
    case unk: False
    show ?thesis
    proof (cases lk)
      case None
      then show ?thesis using unk Cons.IH by (simp add: Let_def)
    next
      case (Some s)
      have "list_all2 keeps_known result
          (forward_loop is (result[i := (result ! i)\<lparr>lw_speaker := s\<rparr>]) (Some s))"
        using unk by (intro keeps_known_all_trans[OF keeps_known_update Cons.IH]) simp
      then show ?thesis using unk Some Cons.IH by (simp add: Let_def)
    qed
  qed
qed

lemma backward_loop_keeps: "list_all2 keeps_known result (backward_loop is result nk)"
proof (induction "is" arbitrary: result nk)
  case Nil
  show ?case by (simp add: keeps_known_all_refl)
next
  case (Cons i "is")
  show ?case
  proof (cases "lw_speaker (result ! i) \<noteq> UNKNOWN")
    case True
    then show ?thesis using Cons.IH by (simp add: Let_def)
  next
    case unk: False
    show ?thesis
    proof (cases nk)
      case None
      then show ?thesis using unk Cons.IH by (simp add: Let_def)
    next
      case (Some s)
      have "list_all2 keeps_known result
          (backward_loop is (result[i := (result ! i)\<lparr>lw_speaker := s\<rparr>]) (Some s))"
        using unk by (intro keeps_known_all_trans[OF keeps_known_update Cons.IH]) simp
      then show ?thesis using unk Some by (simp add: Let_def)
    qed
  qed
qed

lemma interpolate_keeps: "list_all2 keeps_known ws (interpolate_unknown_speakers ws)"
  unfolding interpolate_unknown_speakers_def forward_pass_def backward_pass_def
  by (auto intro: keeps_known_all_refl keeps_known_all_trans[OF forward_loop_keeps backward_loop_keeps])

lemma keeps_known_word_of: "list_all2 keeps_known xs ys \<Longrightarrow> map word_of ys = map word_of xs"
  by (induction rule: list_all2_induct) (simp_all add: keeps_known_def word_of_def)

lemma keeps_known_known:
  assumes "list_all2 keeps_known xs ys" "i < length xs" "lw_speaker (xs ! i) \<noteq> UNKNOWN"
  shows "ys ! i = xs ! i"
proof -
  have "keeps_known (xs ! i) (ys ! i)" using assms(1,2) by (simp add: list_all2_conv_all_nth)
  then show ?thesis using assms(3) by (simp add: keeps_known_def)
qed

lemma word_of_assign_word: "word_of (assign_word w segs tolerance) = w"
  by (simp add: word_of_def assign_word_def Let_def)

lemma word_of_labelled:
  "map word_of (labelled_before_interpolation ws segs tolerance)
     = filter (\<lambda>w. w_end w > w_start w) (sort_key w_start ws)"
  by (simp add: labelled_before_interpolation_def Let_def comp_def word_of_assign_word)

lemma word_of_assigned:
  "map word_of (assign_speakers_to_words ws segs tolerance)
     = filter (\<lambda>w. w_end w > w_start w) (sort_key w_start ws)"
  unfolding assign_speakers_to_words_def
  using keeps_known_word_of[OF interpolate_keeps] word_of_labelled by simp

text \<open>
  C10. \<^verbatim>\<open>assign_speakers_to_words\<close> returns, with text, start and end unchanged, exactly
  the input words whose end exceeds their start (the same words with the same
  multiplicity), in the order of a stable sort by start, so with non-decreasing starts.
  Each interpolation pass, and both together, keep the length of the list and leave every
  word whose speaker is not UNKNOWN as it is.
\<close>

theorem assign_speakers_frame:
  "map word_of (assign_speakers_to_words ws segs tolerance)
       = filter (\<lambda>w. w_end w > w_start w) (sort_key w_start ws)
   \<and> mset (map word_of (assign_speakers_to_words ws segs tolerance))
       = filter_mset (\<lambda>w. w_end w > w_start w) (mset ws)
   \<and> sorted (map lw_start (assign_speakers_to_words ws segs tolerance))
   \<and> length (forward_pass xs) = length xs
   \<and> length (backward_pass xs) = length xs
   \<and> length (interpolate_unknown_speakers xs) = length xs
   \<and> (\<forall>i < length xs. lw_speaker (xs ! i) \<noteq> UNKNOWN \<longrightarrow>
         forward_pass xs ! i = xs ! i \<and> backward_pass xs ! i = xs ! i
         \<and> interpolate_unknown_speakers xs ! i = xs ! i)"
proof -
  let ?out = "assign_speakers_to_words ws segs tolerance"
  have a: "map word_of ?out = filter (\<lambda>w. w_end w > w_start w) (sort_key w_start ws)"
    by (rule word_of_assigned)
  have b: "mset (map word_of ?out) = filter_mset (\<lambda>w. w_end w > w_start w) (mset ws)"
    unfolding a by simp
  have "map lw_start ?out = map w_start (map word_of ?out)"
    by (simp add: comp_def word_of_def)
  then have c: "sorted (map lw_start ?out)"
    unfolding a by (simp add: sorted_filter)
  have f: "list_all2 keeps_known xs (forward_pass xs)"
    unfolding forward_pass_def by (rule forward_loop_keeps)
  have g: "list_all2 keeps_known xs (backward_pass xs)"
    unfolding backward_pass_def by (rule backward_loop_keeps)
  have h: "list_all2 keeps_known xs (interpolate_unknown_speakers xs)"
    by (rule interpolate_keeps)
  have len: "length (forward_pass xs) = length xs" "length (backward_pass xs) = length xs"
    "length (interpolate_unknown_speakers xs) = length xs"
    using list_all2_lengthD[OF f] list_all2_lengthD[OF g] list_all2_lengthD[OF h] by simp_all
  have "forward_pass xs ! i = xs ! i \<and> backward_pass xs ! i = xs ! i
         \<and> interpolate_unknown_speakers xs ! i = xs ! i"
    if "i < length xs" "lw_speaker (xs ! i) \<noteq> UNKNOWN" for i
    using keeps_known_known[OF f that] keeps_known_known[OF g that] keeps_known_known[OF h that]
    by simp
  with a b c len show ?thesis by blast
qed


text \<open>
  An instance of C10: four words out of order, one of them with \<open>end = start\<close>, labelled
  against two segments; and an UNKNOWN word before a known one.
\<close>

theorem assign_speakers_frame_witness:
  "assign_speakers_to_words
     [\<lparr>w_text = ''b'', w_start = 6 / 10, w_end = 1\<rparr>,
      \<lparr>w_text = ''x'', w_start = 2, w_end = 2\<rparr>,
      \<lparr>w_text = ''a'', w_start = 0, w_end = 1 / 2\<rparr>,
      \<lparr>w_text = ''c'', w_start = 11 / 10, w_end = 3 / 2\<rparr>]
     [\<lparr>seg_start = 0, seg_end = 1 / 2, seg_speaker = ''SPEAKER_01''\<rparr>,
      \<lparr>seg_start = 11 / 10, seg_end = 3 / 2, seg_speaker = ''SPEAKER_01''\<rparr>] 0
   = [\<lparr>lw_text = ''a'', lw_start = 0, lw_end = 1 / 2, lw_speaker = ''SPEAKER_01''\<rparr>,
      \<lparr>lw_text = ''b'', lw_start = 6 / 10, lw_end = 1, lw_speaker = ''SPEAKER_01''\<rparr>,
      \<lparr>lw_text = ''c'', lw_start = 11 / 10, lw_end = 3 / 2, lw_speaker = ''SPEAKER_01''\<rparr>]
   \<and> interpolate_unknown_speakers
       [\<lparr>lw_text = ''u'', lw_start = 0, lw_end = 1, lw_speaker = ''UNKNOWN''\<rparr>,
        \<lparr>lw_text = ''k'', lw_start = 1, lw_end = 2, lw_speaker = ''S2''\<rparr>]
   = [\<lparr>lw_text = ''u'', lw_start = 0, lw_end = 1, lw_speaker = ''S2''\<rparr>,
      \<lparr>lw_text = ''k'', lw_start = 1, lw_end = 2, lw_speaker = ''S2''\<rparr>]"
  using assign_speakers_frame[of
     "[\<lparr>w_text = ''b'', w_start = 6 / 10, w_end = 1\<rparr>,
      \<lparr>w_text = ''x'', w_start = 2, w_end = 2\<rparr>,
      \<lparr>w_text = ''a'', w_start = 0, w_end = 1 / 2\<rparr>,
      \<lparr>w_text = ''c'', w_start = 11 / 10, w_end = 3 / 2\<rparr>]"
     "[\<lparr>seg_start = 0, seg_end = 1 / 2, seg_speaker = ''SPEAKER_01''\<rparr>,
      \<lparr>seg_start = 11 / 10, seg_end = 3 / 2, seg_speaker = ''SPEAKER_01''\<rparr>]" 0
     "[\<lparr>lw_text = ''u'', lw_start = 0, lw_end = 1, lw_speaker = ''UNKNOWN''\<rparr>,
        \<lparr>lw_text = ''k'', lw_start = 1, lw_end = 2, lw_speaker = ''S2''\<rparr>]"]
  by (simp add: assign_speakers_to_words_def labelled_before_interpolation_def assign_word_def
      assign_step_def assign_init_def seg_overlap_def seg_dist_def
      interpolate_unknown_speakers_def forward_pass_def backward_pass_def UNKNOWN_def Let_def
      eval_nat_numeral upt_conv_Cons)

subsection \<open>Speaker assignment\<close>














end
